theory Spec2Isabelle
  imports Main
begin

section \<open>Text: Python strings as lists of code points\<close>

text \<open>
  A Python \<open>str\<close> is a sequence of Unicode code points, and the program iterates over
  its strings code point by code point (the box-drawing glyphs are single characters to
  it). A character is therefore modelled by its code point, a natural number, and a
  string by the list of its code points. \<open>ustr\<close> embeds an ASCII literal.
\<close>

type_synonym uchar = nat
type_synonym ustring = "uchar list"

definition ustr :: "string \<Rightarrow> ustring" where
  "ustr s = map of_char s"

definition SP :: uchar where "SP = 32"
definition LF :: uchar where "LF = 10"
definition CR :: uchar where "CR = 13"
definition SLASH :: uchar where "SLASH = 47"

text \<open>The tree-drawing glyphs: U+2502, U+251C, U+2514 and U+2500.\<close>

definition VBAR :: uchar where "VBAR = 9474"
definition TEE :: uchar where "TEE = 9500"
definition ELL :: uchar where "ELL = 9492"
definition DASH :: uchar where "DASH = 9472"

text \<open>
  The line boundaries of \<open>str.splitlines\<close> and the white space of \<open>str.strip\<close>
  and \<open>str.rstrip\<close>, as the Python language reference lists them.
\<close>

definition is_linebreak :: "uchar \<Rightarrow> bool" where
  "is_linebreak c \<longleftrightarrow> c \<in> {10, 11, 12, 13, 28, 29, 30, 133, 8232, 8233}"

definition isspace :: "uchar \<Rightarrow> bool" where
  "isspace c \<longleftrightarrow>
     c \<in> {9, 10, 11, 12, 13, 28, 29, 30, 31, 32, 133, 160, 5760, 8232, 8233, 8239, 8287, 12288}
     \<or> (8192 \<le> c \<and> c \<le> 8202)"

text \<open>
  \<open>splitlines\<close>: the text is cut at every line boundary, CR LF counting as one; the
  boundaries are dropped, and a text that ends with a boundary yields no empty last
  line. \<open>cur\<close> is the line read so far.
\<close>

fun splitlines_from :: "ustring \<Rightarrow> ustring \<Rightarrow> ustring list" where
  "splitlines_from cur [] = (if cur = [] then [] else [cur])"
| "splitlines_from cur [c] =
     (if is_linebreak c then [cur] else [cur @ [c]])"
| "splitlines_from cur (c # d # cs) =
     (if c = CR \<and> d = LF then cur # splitlines_from [] cs
      else if is_linebreak c then cur # splitlines_from [] (d # cs)
      else splitlines_from (cur @ [c]) (d # cs))"

definition splitlines :: "ustring \<Rightarrow> ustring list" where
  "splitlines s = splitlines_from [] s"

definition lstrip :: "ustring \<Rightarrow> ustring" where
  "lstrip s = dropWhile isspace s"

definition rstrip :: "ustring \<Rightarrow> ustring" where
  "rstrip s = rev (dropWhile isspace (rev s))"

definition strip :: "ustring \<Rightarrow> ustring" where
  "strip s = rstrip (lstrip s)"

definition endswith :: "ustring \<Rightarrow> ustring \<Rightarrow> bool" where
  "endswith s suffix \<longleftrightarrow>
     length suffix \<le> length s \<and> drop (length s - length suffix) s = suffix"

section \<open>The outline parser\<close>

text \<open>
  \<open>parse_markdown\<close>: every line is stripped of trailing white space and skipped when
  nothing is left; its level is the number of leading space characters (the inner loop,
  which stops at the first other character) and its name the rest, stripped.
\<close>

fun leading_spaces :: "ustring \<Rightarrow> int" where
  "leading_spaces [] = 0"
| "leading_spaces (c # cs) = (if c = SP then 1 + leading_spaces cs else 0)"

definition markdown_entry :: "ustring \<Rightarrow> ustring \<times> int" where
  "markdown_entry line =
     (let level = leading_spaces line in (strip (drop (nat level) line), level))"

definition parse_markdown :: "ustring \<Rightarrow> (ustring \<times> int) list" where
  "parse_markdown markdown_text =
     map markdown_entry (filter (\<lambda>line. line \<noteq> []) (map rstrip (splitlines markdown_text)))"

section \<open>Nodes and the tree builder\<close>

text \<open>
  \<open>build_tree\<close> keeps references to the nodes it has created on a stack and appends
  children to them in place, while the same nodes are already children of others. The
  store makes the sharing explicit: a node object lives at an address (its index in the
  store, in creation order) and its children are addresses.
\<close>

record node_obj =
  o_name :: ustring
  o_is_dir :: bool
  o_children :: "nat list"
  o_level :: int

type_synonym store = "node_obj list"

definition new_node :: "ustring \<Rightarrow> bool \<Rightarrow> int \<Rightarrow> node_obj" where
  "new_node nm d lvl = \<lparr>o_name = nm, o_is_dir = d, o_children = [], o_level = lvl\<rparr>"

definition add_child :: "node_obj \<Rightarrow> nat \<Rightarrow> node_obj" where
  "add_child n child = n\<lparr>o_children := o_children n @ [child]\<rparr>"

text \<open>
  The stack is a list with its top first. \<open>pop_stack\<close> is the loop
  \<^verbatim>\<open>while stack and level <= stack[-1].level: stack.pop()\<close>.
\<close>

fun pop_stack :: "store \<Rightarrow> int \<Rightarrow> nat list \<Rightarrow> nat list" where
  "pop_stack st lvl [] = []"
| "pop_stack st lvl (tp # stack) =
     (if lvl \<le> o_level (st ! tp) then pop_stack st lvl stack else tp # stack)"

text \<open>One turn of the loop over \<open>entries[1:]\<close>.\<close>

fun build_step :: "store \<times> nat list \<Rightarrow> ustring \<times> int \<Rightarrow> store \<times> nat list" where
  "build_step (st, stack) (nm, lvl) =
     (let node = length st;
          st1 = st @ [new_node nm (endswith nm [SLASH]) lvl];
          stack1 = pop_stack st1 lvl stack;
          st2 = (case stack1 of [] \<Rightarrow> st1
                 | tp # _ \<Rightarrow> st1[tp := add_child (st1 ! tp) node])
      in (st2, node # stack1))"

text \<open>
  \<open>build_store\<close> is \<open>build_tree\<close> on the store: \<open>None\<close> for no entries, else the
  store at the end of the loop, with the root node at address 0.
\<close>

definition build_store :: "(ustring \<times> int) list \<Rightarrow> store option" where
  "build_store entries =
     (case entries of [] \<Rightarrow> None
      | (nm, lvl) # rest \<Rightarrow> Some (fst (foldl build_step ([new_node nm True lvl], [0]) rest)))"

text \<open>
  A node as a value: what a reader of the object at an address sees when it follows the
  children. Nodes are created after their parents, so a child's address is greater than
  its parent's; \<open>tree_of\<close> follows such addresses only, which makes it total
  (\<open>build_store_children\<close> below shows that no child of a built store is left out).
\<close>

datatype node = Node (name: ustring) (is_dir: bool) (children: "node list") (level: int)

function tree_of :: "store \<Rightarrow> nat \<Rightarrow> node" where
  "tree_of st a =
     Node (o_name (st ! a)) (o_is_dir (st ! a))
       (map (tree_of st) (filter (\<lambda>c. a < c \<and> c < length st) (o_children (st ! a))))
       (o_level (st ! a))"
  by pat_completeness auto
termination
  by (relation "measure (\<lambda>(st, a). length st - a)") auto

declare tree_of.simps [simp del]

definition build_tree :: "(ustring \<times> int) list \<Rightarrow> node option" where
  "build_tree entries = map_option (\<lambda>st. tree_of st 0) (build_store entries)"

section \<open>The tree-diagram renderer\<close>

text \<open>
  \<open>generate_tree_text\<close> with its three string parameters; the vertical glyph is fixed
  in the code. The label of a line is \<^verbatim>\<open>node.name[:-1]\<close>, the name without its
  last character, followed by \<open>/\<close> for a directory.
\<close>

function generate_tree_text_recursive ::
  "ustring \<Rightarrow> ustring \<Rightarrow> ustring \<Rightarrow> node \<Rightarrow> ustring \<Rightarrow> bool \<Rightarrow> ustring" where
  "generate_tree_text_recursive indent_str branch_str last_branch_str nd prefix is_last =
     prefix @ (if is_last then last_branch_str else branch_str)
       @ butlast (name nd) @ (if is_dir nd then [SLASH] else []) @ [LF]
       @ concat (map (\<lambda>(i, child).
           generate_tree_text_recursive indent_str branch_str last_branch_str child
             (prefix @ (if is_last then indent_str else VBAR # indent_str))
             (i = length (children nd) - 1))
           (enumerate 0 (children nd)))"
  by pat_completeness auto
termination
proof (relation "measure (\<lambda>(_, _, _, nd, _, _). size nd)")
  show "wf (measure (\<lambda>(_, _, _, nd, _, _). size nd))" by simp
next
  fix indent_str branch_str last_branch_str :: ustring
  fix nd :: node and prefix :: ustring and is_last :: bool
  fix x :: "nat \<times> node" and i :: nat and child :: node
  assume "x \<in> set (enumerate 0 (children nd))" and "(i, child) = x"
  then have "child \<in> set (children nd)"
    by (auto simp: in_set_enumerate_eq)
  then have "size child < size nd"
    by (cases nd) (auto simp: less_Suc_eq_le size_list_estimation')
  then show "((indent_str, branch_str, last_branch_str, child,
        prefix @ (if is_last then indent_str else VBAR # indent_str),
        i = length (children nd) - 1),
      (indent_str, branch_str, last_branch_str, nd, prefix, is_last))
    \<in> measure (\<lambda>(_, _, _, nd, _, _). size nd)"
    by simp
qed

text \<open>
  The equation calls the function again for every child, whatever the node, so it is
  used only where it is named.
\<close>

declare generate_tree_text_recursive.simps [simp del]

definition generate_tree_text ::
  "node option \<Rightarrow> ustring \<Rightarrow> ustring \<Rightarrow> ustring \<Rightarrow> ustring" where
  "generate_tree_text root_node indent_str branch_str last_branch_str =
     (case root_node of None \<Rightarrow> []
      | Some r \<Rightarrow> generate_tree_text_recursive indent_str branch_str last_branch_str r [] True)"

text \<open>The default arguments.\<close>

definition default_indent :: ustring where
  "default_indent = [SP, SP, SP, SP]"

definition default_branch :: ustring where
  "default_branch = [TEE, DASH, DASH, SP]"

definition default_last_branch :: ustring where
  "default_last_branch = [ELL, DASH, DASH, SP]"

section \<open>The tree-diagram parser\<close>

text \<open>
  The first loop over a line keeps \<open>(level, name_start, current_indent)\<close>. The tuple the
  code tests a character against also holds a string of four spaces, which no single
  character equals. The second loop adds one level at the first of the three glyphs.
\<close>

definition tree_char :: "uchar \<Rightarrow> bool" where
  "tree_char c \<longleftrightarrow> c \<in> {SP, VBAR, TEE, ELL, DASH}"

definition branch_char :: "uchar \<Rightarrow> bool" where
  "branch_char c \<longleftrightarrow> c \<in> {VBAR, TEE, ELL}"

fun scan_step :: "int \<Rightarrow> int \<times> int \<times> int \<Rightarrow> nat \<times> uchar \<Rightarrow> int \<times> int \<times> int" where
  "scan_step indent_len (lvl, name_start, current_indent) (i, c) =
     (let name_start1 = (if tree_char c then int i + 1 else name_start)
      in if c = SP then
           (if current_indent + 1 = indent_len then (lvl + 1, name_start1, 0)
            else (lvl, name_start1, current_indent + 1))
         else (lvl, name_start1, current_indent))"

definition tree_entry :: "ustring \<Rightarrow> ustring \<Rightarrow> ustring \<times> int" where
  "tree_entry indent_str line =
     (case foldl (scan_step (int (length indent_str))) (0, 0, 0) (enumerate 0 line) of
        (lvl, name_start, _) \<Rightarrow>
          (strip (drop (nat name_start) line),
           (if list_ex branch_char line then lvl + 1 else lvl)))"

definition parse_tree_text :: "ustring \<Rightarrow> ustring \<Rightarrow> (ustring \<times> int) list" where
  "parse_tree_text tree_text indent_str =
     map (tree_entry indent_str)
       (filter (\<lambda>line. line \<noteq> []) (map rstrip (splitlines tree_text)))"

section \<open>The outline renderer\<close>

text \<open>
  \<open>generate_markdown\<close>. A level of \<open>-1\<close> suppresses the line; a negative repetition
  count gives the empty string in Python, as \<open>nat\<close> does here. The code also prints each
  name and level to standard output, which does not reach the returned text.
\<close>

fun generate_markdown_recursive :: "node \<Rightarrow> int \<Rightarrow> ustring" where
  "generate_markdown_recursive (Node nm d cs lv) lvl =
     (if lvl = - 1 then []
      else concat (replicate (nat lvl) [SP, SP, SP, SP]) @ nm @ [LF])
     @ concat (map (\<lambda>child. generate_markdown_recursive child (level child)) cs)"

definition generate_markdown :: "node option \<Rightarrow> ustring" where
  "generate_markdown root_node =
     (case root_node of None \<Rightarrow> [] | Some r \<Rightarrow> generate_markdown_recursive r 0)"

section \<open>Notation detection\<close>

text \<open>
  \<open>lower\<close> maps the ASCII capitals to small letters and leaves every other code point
  alone. Python's \<open>str.lower\<close> also changes code points beyond ASCII, by the Unicode
  tables, but produces none of the characters of \<open>.md\<close>, \<open>.txt\<close> and \<open>.tree\<close> from
  them, so the comparisons below come out the same.
\<close>

definition lower :: "ustring \<Rightarrow> ustring" where
  "lower s = map (\<lambda>c. if 65 \<le> c \<and> c \<le> 90 then c + 32 else c) s"

definition detect_input_type :: "ustring \<Rightarrow> ustring \<Rightarrow> ustring option" where
  "detect_input_type input_text file_extension =
     (if file_extension \<noteq> [] then
        (let ext = lower file_extension
         in if ext = ustr ''.md'' then Some (ustr ''markdown'')
            else if ext \<in> {ustr ''.txt'', ustr ''.tree''} then Some (ustr ''tree'')
            else None)
      else None)"

section \<open>The statements of the specification, for comparison\<close>

text \<open>
  What the specification says a line of a diagram yields. The name is the text after the
  last space or glyph of the line, trimmed; the depth is the number of whole indentation
  units that the line's spaces make up (the count starts again each time it reaches the
  unit's length, and never reaches a length of zero), and one more if the line holds a
  vertical or a branch glyph.
\<close>

definition diagram_name :: "ustring \<Rightarrow> ustring" where
  "diagram_name line = strip (rev (takeWhile (\<lambda>c. \<not> tree_char c) (rev line)))"

definition diagram_depth :: "nat \<Rightarrow> ustring \<Rightarrow> int" where
  "diagram_depth n line =
     int (if n = 0 then 0 else count_list line SP div n)
     + (if list_ex branch_char line then 1 else 0)"

text \<open>The three variables of the scanning loop after the characters \<open>xs\<close>.\<close>

definition scan_result :: "nat \<Rightarrow> ustring \<Rightarrow> int \<times> int \<times> int" where
  "scan_result n xs =
     (int (if n = 0 then 0 else count_list xs SP div n),
      int (length xs - length (takeWhile (\<lambda>c. \<not> tree_char c) (rev xs))),
      int (if n = 0 then count_list xs SP else count_list xs SP mod n))"

text \<open>
  The children of a node as the renderer's loop passes through them: the child that
  has no sibling after it is the one with index \<open>len(children) - 1\<close>.
\<close>

fun tree_text_children ::
  "ustring \<Rightarrow> ustring \<Rightarrow> ustring \<Rightarrow> ustring \<Rightarrow> node list \<Rightarrow> ustring" where
  "tree_text_children indent_str branch_str last_branch_str prefix [] = []"
| "tree_text_children indent_str branch_str last_branch_str prefix (c # cs) =
     generate_tree_text_recursive indent_str branch_str last_branch_str c prefix (cs = [])
     @ tree_text_children indent_str branch_str last_branch_str prefix cs"

text \<open>The nodes below a node, in pre-order, and the line of the outline for a name.\<close>

fun descendants :: "node \<Rightarrow> node list" where
  "descendants (Node nm d cs lv) = concat (map (\<lambda>c. c # descendants c) cs)"

definition outline_line :: "ustring \<Rightarrow> int \<Rightarrow> ustring" where
  "outline_line nm lvl = concat (replicate (nat lvl) [SP, SP, SP, SP]) @ nm @ [LF]"

text \<open>
  A condition on the records under which no file is given a child: every record whose
  predecessor is a file (has the flag \<open>d\<close> false) is no deeper than that predecessor
  (whose depth is \<open>lvl\<close>). The first record is the root, always a directory.
\<close>

fun closed_after :: "bool \<Rightarrow> int \<Rightarrow> (ustring \<times> int) list \<Rightarrow> bool" where
  "closed_after d lvl [] = True"
| "closed_after d lvl ((nm, l) # es) =
     ((d \<or> l \<le> lvl) \<and> closed_after (endswith nm [SLASH]) l es)"

definition files_closed :: "(ustring \<times> int) list \<Rightarrow> bool" where
  "files_closed entries =
     (case entries of [] \<Rightarrow> True | (nm, lvl) # rest \<Rightarrow> closed_after True lvl rest)"

text \<open>
  What the loop keeps true of the store and the stack when the records are such: the
  stack is not empty and holds addresses of the store, every node below the top of the
  stack is a directory, and every file of the store is childless.
\<close>

definition files_inv :: "store \<times> nat list \<Rightarrow> bool" where
  "files_inv s \<longleftrightarrow>
     (case s of (st, stack) \<Rightarrow>
        stack \<noteq> [] \<and> (\<forall>a \<in> set stack. a < length st)
        \<and> (\<forall>a \<in> set (tl stack). o_is_dir (st ! a))
        \<and> (\<forall>a < length st. o_is_dir (st ! a) \<or> o_children (st ! a) = []))"

section \<open>The filesystem materializer\<close>

text \<open>
  The file system as the four library calls of \<open>create_files_and_dirs\<close> see it, on a
  POSIX system without symbolic links: a path is resolved to the list of its components
  (empty components and \<open>.\<close> dropped, a leading \<open>/\<close> kept as a first component of its
  own; \<open>..\<close> is not interpreted), and the file system maps resolved paths to
  directories and to files with their content. The directory that relative paths start
  from and the root directory always exist.
\<close>

datatype entry = Dir | File ustring

type_synonym filesystem = "ustring list \<rightharpoonup> entry"

datatype os_error = FileExistsError | FileNotFoundError | NotADirectoryError | IsADirectoryError

fun split_slash :: "ustring \<Rightarrow> ustring \<Rightarrow> ustring list" where
  "split_slash cur [] = [cur]"
| "split_slash cur (c # cs) =
     (if c = SLASH then cur # split_slash [] cs else split_slash (cur @ [c]) cs)"

definition resolve :: "ustring \<Rightarrow> ustring list" where
  "resolve path =
     (if path \<noteq> [] \<and> hd path = SLASH then [[SLASH]] else [])
     @ filter (\<lambda>c. c \<noteq> [] \<and> c \<noteq> ustr ''.'') (split_slash [] path)"

definition lookup :: "filesystem \<Rightarrow> ustring list \<Rightarrow> entry option" where
  "lookup fs k = (if k = [] \<or> k = [[SLASH]] then Some Dir else fs k)"

text \<open>\<open>os.path.join\<close> of two paths.\<close>

definition os_path_join :: "ustring \<Rightarrow> ustring \<Rightarrow> ustring" where
  "os_path_join a b =
     (if b \<noteq> [] \<and> hd b = SLASH then b
      else if a = [] \<or> endswith a [SLASH] then a @ b
      else a @ [SLASH] @ b)"

text \<open>
  \<open>os.path.exists\<close>: a file is not found under a path that ends in \<open>/\<close>.
\<close>

definition os_path_exists :: "filesystem \<Rightarrow> ustring \<Rightarrow> bool" where
  "os_path_exists fs path =
     (case lookup fs (resolve path) of
        None \<Rightarrow> False
      | Some Dir \<Rightarrow> True
      | Some (File _) \<Rightarrow> \<not> endswith path [SLASH])"

text \<open>
  \<open>os.makedirs(path, exist_ok=True)\<close> goes down the path and creates each directory
  that is missing; it fails where it meets a file. \<open>mkdirs\<close> takes the resolved path's
  prefixes, shortest first.
\<close>

fun mkdirs :: "ustring list list \<Rightarrow> filesystem \<Rightarrow> os_error option \<times> filesystem" where
  "mkdirs [] fs = (None, fs)"
| "mkdirs (k # ks) fs =
     (case lookup fs k of
        Some Dir \<Rightarrow> mkdirs ks fs
      | Some (File _) \<Rightarrow> (Some (if ks = [] then FileExistsError else NotADirectoryError), fs)
      | None \<Rightarrow> mkdirs ks (fs(k \<mapsto> Dir)))"

definition os_makedirs :: "ustring \<Rightarrow> filesystem \<Rightarrow> os_error option \<times> filesystem" where
  "os_makedirs path fs =
     (if path = [] then (Some FileNotFoundError, fs)
      else mkdirs (map (\<lambda>n. take n (resolve path)) [1 ..< Suc (length (resolve path))]) fs)"

text \<open>
  \<open>open(path, 'w').close()\<close>: the file is created empty, or emptied if it is there; the
  call fails on a directory and where the parent directory is missing.
\<close>

definition open_w_close :: "ustring \<Rightarrow> filesystem \<Rightarrow> os_error option \<times> filesystem" where
  "open_w_close path fs =
     (let k = resolve path in
      if path = [] then (Some FileNotFoundError, fs)
      else if endswith path [SLASH] \<or> lookup fs k = Some Dir then (Some IsADirectoryError, fs)
      else (case lookup fs (butlast k) of
              Some Dir \<Rightarrow> (None, fs(k \<mapsto> File []))
            | Some (File _) \<Rightarrow> (Some NotADirectoryError, fs)
            | None \<Rightarrow> (Some FileNotFoundError, fs)))"

text \<open>
  \<open>create_files_and_dirs\<close> returns the file system it leaves behind and the exception
  that ended it, if one did; \<open>create_children\<close> is its loop over the children, which an
  exception leaves.
\<close>

fun create_files_and_dirs ::
    "node \<Rightarrow> ustring \<Rightarrow> filesystem \<Rightarrow> os_error option \<times> filesystem"
  and create_children ::
    "node list \<Rightarrow> ustring \<Rightarrow> filesystem \<Rightarrow> os_error option \<times> filesystem" where
  "create_files_and_dirs (Node nm d cs lv) current_path fs =
     (let path = os_path_join current_path nm in
      if d then
        (case os_makedirs path fs of
           (Some e, fs1) \<Rightarrow> (Some e, fs1)
         | (None, fs1) \<Rightarrow> create_children cs path fs1)
      else if \<not> os_path_exists fs path then open_w_close path fs
      else (None, fs))"
| "create_children [] path fs = (None, fs)"
| "create_children (child # cs) path fs =
     (case create_files_and_dirs child path fs of
        (Some e, fs1) \<Rightarrow> (Some e, fs1)
      | (None, fs1) \<Rightarrow> create_children cs path fs1)"

section \<open>Properties\<close>

text \<open>
  Claim C2. The tree builder, given no records, builds no tree: it returns \<open>None\<close>, the
  value by which the code reports the empty input to its caller.
\<close>

theorem build_tree_empty: "build_tree [] = None"
  by (simp add: build_tree_def build_store_def)

subsection \<open>Evaluating the text functions\<close>

lemmas char_defs = SP_def LF_def CR_def SLASH_def VBAR_def TEE_def ELL_def DASH_def

lemmas text_defs = ustr_def splitlines_def is_linebreak_def isspace_def rstrip_def lstrip_def
  strip_def endswith_def

subsection \<open>The depth stack\<close>

lemma pop_stack_dropWhile:
  "pop_stack st lvl stack = dropWhile (\<lambda>a. lvl \<le> o_level (st ! a)) stack"
  by (induction stack) auto

lemma build_step_dropWhile:
  "build_step (st, stack) (nm, lvl) =
     (let st1 = st @ [new_node nm (endswith nm [SLASH]) lvl];
          stack1 = dropWhile (\<lambda>a. lvl \<le> o_level (st1 ! a)) stack
      in (if stack1 = [] then st1
          else st1[hd stack1 := add_child (st1 ! hd stack1) (length st)],
          length st # stack1))"
proof -
  define st1 where "st1 = st @ [new_node nm (endswith nm [SLASH]) lvl]"
  define stack1 where "stack1 = dropWhile (\<lambda>a. lvl \<le> o_level (st1 ! a)) stack"
  have "build_step (st, stack) (nm, lvl) =
      ((case stack1 of [] \<Rightarrow> st1 | tp # _ \<Rightarrow> st1[tp := add_child (st1 ! tp) (length st)]),
       length st # stack1)"
    unfolding st1_def stack1_def by (simp add: pop_stack_dropWhile Let_def)
  also have "\<dots> = (if stack1 = [] then st1
            else st1[hd stack1 := add_child (st1 ! hd stack1) (length st)],
            length st # stack1)"
    by (cases stack1) simp_all
  finally show ?thesis
    by (simp only: Let_def st1_def stack1_def)
qed

lemma outline_example_entries:
  "parse_markdown
      (ustr ''root/'' @ [LF] @ ustr ''    a/'' @ [LF] @ ustr ''        b'' @ [LF]
        @ ustr ''    c'' @ [LF])
     = [(ustr ''root/'', 0), (ustr ''a/'', 4), (ustr ''b'', 8), (ustr ''c'', 4)]"
  by (simp add: parse_markdown_def markdown_entry_def char_defs text_defs)

lemma outline_example_store:
  "build_store [(ustr ''root/'', 0), (ustr ''a/'', 4), (ustr ''b'', 8), (ustr ''c'', 4)]
     = Some [\<lparr>o_name = ustr ''root/'', o_is_dir = True, o_children = [1, 3], o_level = 0\<rparr>,
             \<lparr>o_name = ustr ''a/'', o_is_dir = True, o_children = [2], o_level = 4\<rparr>,
             \<lparr>o_name = ustr ''b'', o_is_dir = False, o_children = [], o_level = 8\<rparr>,
             \<lparr>o_name = ustr ''c'', o_is_dir = False, o_children = [], o_level = 4\<rparr>]"
  by (simp add: build_store_def new_node_def add_child_def char_defs text_defs)

lemma outline_example:
  "build_tree (parse_markdown
      (ustr ''root/'' @ [LF] @ ustr ''    a/'' @ [LF] @ ustr ''        b'' @ [LF]
        @ ustr ''    c'' @ [LF]))
     = Some (Node (ustr ''root/'') True
              [Node (ustr ''a/'') True [Node (ustr ''b'') False [] 8] 4,
               Node (ustr ''c'') False [] 4] 0)"
  unfolding build_tree_def outline_example_entries outline_example_store
  by (simp add: tree_of.simps)

text \<open>
  Claim C3. The outline \<open>root/\<close>, \<open>a/\<close> (4 spaces), \<open>b\<close> (8 spaces), \<open>c\<close> (4 spaces)
  builds the tree whose root has the children a and c in that order, a has the one child
  b, b and c are files, a and the root are directories. In general the loop removes from
  the stack exactly its topmost run of nodes whose depth is greater than or equal to the
  record's depth, attaches the new node to the node then on top, if there is one, and
  pushes the new node.
\<close>

theorem depth_stack_correct:
  "build_tree (parse_markdown
      (ustr ''root/'' @ [LF] @ ustr ''    a/'' @ [LF] @ ustr ''        b'' @ [LF]
        @ ustr ''    c'' @ [LF]))
     = Some (Node (ustr ''root/'') True
              [Node (ustr ''a/'') True [Node (ustr ''b'') False [] 8] 4,
               Node (ustr ''c'') False [] 4] 0)
   \<and> pop_stack st lvl stack = dropWhile (\<lambda>a. lvl \<le> o_level (st ! a)) stack
   \<and> build_step (st, stack) (nm, lvl) =
       (let st1 = st @ [new_node nm (endswith nm [SLASH]) lvl];
            stack1 = dropWhile (\<lambda>a. lvl \<le> o_level (st1 ! a)) stack
        in (if stack1 = [] then st1
            else st1[hd stack1 := add_child (st1 ! hd stack1) (length st)],
            length st # stack1))"
  by (intro conjI outline_example pop_stack_dropWhile build_step_dropWhile)

subsection \<open>Notation detection\<close>

lemma lower_idem: "lower (lower s) = lower s"
  by (induction s) (auto simp: lower_def)

lemma lower_Nil_iff: "lower s = [] \<longleftrightarrow> s = []"
  by (simp add: lower_def)

text \<open>
  Claim C10. The detector gives an extension the tag of its lower-case form, and the tag is
  decided by the lower-case form alone: markdown for \<open>.md\<close>, tree for \<open>.txt\<close> and
  \<open>.tree\<close>, and no tag (\<open>None\<close>, not an error) for every other extension, the empty one
  included.
\<close>

theorem detect_input_type_case_insensitive:
  "detect_input_type input_text ext = detect_input_type input_text (lower ext)
   \<and> detect_input_type input_text ext =
       (if lower ext = ustr ''.md'' then Some (ustr ''markdown'')
        else if lower ext = ustr ''.txt'' \<or> lower ext = ustr ''.tree'' then Some (ustr ''tree'')
        else None)
   \<and> detect_input_type input_text [] = None"
proof -
  have "detect_input_type input_text ext = detect_input_type input_text (lower ext)"
    by (simp add: detect_input_type_def lower_idem lower_Nil_iff)
  moreover have "detect_input_type input_text ext =
       (if lower ext = ustr ''.md'' then Some (ustr ''markdown'')
        else if lower ext = ustr ''.txt'' \<or> lower ext = ustr ''.tree'' then Some (ustr ''tree'')
        else None)"
    by (auto simp add: detect_input_type_def lower_def ustr_def)
  moreover have "detect_input_type input_text [] = None"
    by (simp add: detect_input_type_def)
  ultimately show ?thesis
    by (simp only: simp_thms)
qed

subsection \<open>The tree-diagram parser\<close>

lemma tree_char_SP: "tree_char SP"
  by (simp add: tree_char_def)

lemma scan_step_space_zero:
  "n = 0 \<Longrightarrow> scan_step (int n) (scan_result n xs) (length xs, SP) = scan_result n (xs @ [SP])"
  by (simp add: scan_result_def tree_char_SP)

lemma scan_step_space:
  assumes "n \<noteq> 0"
  shows "scan_step (int n) (scan_result n xs) (length xs, SP) = scan_result n (xs @ [SP])"
proof -
  define c where "c = count_list xs SP"
  have res: "scan_result n xs =
      (int (c div n), int (length xs - length (takeWhile (\<lambda>c. \<not> tree_char c) (rev xs))),
       int (c mod n))"
    using assms by (simp add: scan_result_def c_def)
  have res': "scan_result n (xs @ [SP]) = (int (Suc c div n), int (length xs) + 1, int (Suc c mod n))"
    using assms by (simp add: scan_result_def c_def tree_char_SP)
  show ?thesis
  proof (cases "Suc (c mod n) = n")
    case True
    then have "int (c mod n) + 1 = int n" by linarith
    moreover from True have "Suc c mod n = 0" "Suc c div n = Suc (c div n)"
      by (simp_all add: mod_Suc div_Suc)
    ultimately show ?thesis
      by (simp add: res res' tree_char_SP)
  next
    case False
    then have "int (c mod n) + 1 \<noteq> int n" by linarith
    moreover from False have "Suc c mod n = Suc (c mod n)" "Suc c div n = c div n"
      by (simp_all add: mod_Suc div_Suc)
    ultimately show ?thesis
      by (simp add: res res' tree_char_SP)
  qed
qed

lemma scan_step_other:
  "x \<noteq> SP \<Longrightarrow> scan_step (int n) (scan_result n xs) (length xs, x) = scan_result n (xs @ [x])"
  by (simp add: scan_result_def)

lemma scan_step_snoc:
  "scan_step (int n) (scan_result n xs) (length xs, x) = scan_result n (xs @ [x])"
  using scan_step_space_zero scan_step_space scan_step_other by (cases "x = SP"; cases "n = 0") blast+

lemma scan_loop:
  "foldl (scan_step (int n)) (0, 0, 0) (enumerate 0 xs) = scan_result n xs"
proof (induction xs rule: rev_induct)
  case Nil
  show ?case by (simp add: scan_result_def)
next
  case (snoc x xs)
  then show ?case
    by (simp add: enumerate_append_eq scan_step_snoc del: scan_step.simps)
qed

lemma drop_to_last_suffix:
  "drop (length xs - length (takeWhile P (rev xs))) xs = rev (takeWhile P (rev xs))"
proof -
  define ys where "ys = rev xs"
  define k where "k = length (takeWhile P ys)"
  have k: "k \<le> length ys"
    unfolding k_def by (rule length_takeWhile_le)
  have "drop (length ys - k) (rev ys) = rev (take (length ys - (length ys - k)) ys)"
    by (rule drop_rev)
  also have "length ys - (length ys - k) = k"
    using k by simp
  also have "take k ys = takeWhile P ys"
    unfolding k_def by (rule takeWhile_eq_take [symmetric])
  finally show ?thesis
    by (simp add: ys_def k_def)
qed

lemma tree_entry_eq:
  "tree_entry indent_str line = (diagram_name line, diagram_depth (length indent_str) line)"
  by (simp add: tree_entry_def scan_loop scan_result_def diagram_name_def diagram_depth_def
      drop_to_last_suffix)

text \<open>
  Claim C6. The parser yields one record for every line that is not blank once its
  trailing white space is removed. The record's depth is the number of times the running
  count of spaces reaches the length of the indentation unit, plus one if the line holds a
  vertical, branch or last-branch glyph; its name is the trimmed text after the last space
  or tree-drawing glyph of the line.
\<close>

theorem parse_tree_text_records:
  "parse_tree_text tree_text indent_str =
     map (\<lambda>line. (diagram_name line, diagram_depth (length indent_str) line))
       (filter (\<lambda>line. line \<noteq> []) (map rstrip (splitlines tree_text)))"
  by (simp add: parse_tree_text_def tree_entry_eq)

subsection \<open>The tree-diagram renderer\<close>

lemma tree_text_children_enumerate:
  "concat (map (\<lambda>(k, child).
       generate_tree_text_recursive i b l child q (k = n + length cs - 1)) (enumerate n cs))
   = tree_text_children i b l q cs"
proof (induction cs arbitrary: n)
  case Nil
  show ?case by simp
next
  case (Cons c cs)
  have "(n = n + length (c # cs) - 1) = (cs = [])" by auto
  moreover have "n + length (c # cs) - 1 = Suc n + length cs - 1" by simp
  ultimately show ?case
    using Cons.IH [of "Suc n"] by simp
qed

lemma generate_tree_text_recursive_Node:
  "generate_tree_text_recursive i b l (Node nm d cs lv) prefix is_last =
     prefix @ (if is_last then l else b) @ butlast nm @ (if d then [SLASH] else []) @ [LF]
     @ tree_text_children i b l (prefix @ (if is_last then i else VBAR # i)) cs"
  using tree_text_children_enumerate [of i b l _ 0 cs]
  by (simp add: generate_tree_text_recursive.simps [of i b l "Node nm d cs lv"])

lemma endswith_slash_iff: "endswith nm [SLASH] \<longleftrightarrow> nm \<noteq> [] \<and> last nm = SLASH"
  by (cases nm rule: rev_cases) (auto simp: endswith_def)

lemma butlast_slash: "endswith nm [SLASH] \<Longrightarrow> butlast nm @ [SLASH] = nm"
  by (cases nm rule: rev_cases) (auto simp: endswith_def)

text \<open>
  Claim C5. The claim has the line of a node carry the node's name. The code writes
  \<^verbatim>\<open>node.name[:-1]\<close>, the name without its last character: that is the name for a
  directory, whose stored name ends in \<open>/\<close>, and a name cut short for a file. For the
  tree of the outline \<open>r/\<close>, \<open>b\<close> (4 spaces) the file's line carries no name at all,
  where the claim has \<open>b\<close>; the connectors and the prefix are as the claim says.
\<close>

theorem generate_tree_text_file_name_cut:
  "build_tree (parse_markdown (ustr ''r/'' @ [LF] @ ustr ''    b'' @ [LF]))
     = Some (Node (ustr ''r/'') True [Node (ustr ''b'') False [] 4] 0)
   \<and> generate_tree_text (Some (Node (ustr ''r/'') True [Node (ustr ''b'') False [] 4] 0))
       default_indent default_branch default_last_branch
     = [ELL, DASH, DASH, SP] @ ustr ''r/'' @ [LF]
       @ [SP, SP, SP, SP] @ [ELL, DASH, DASH, SP] @ [LF]"
proof -
  have "parse_markdown (ustr ''r/'' @ [LF] @ ustr ''    b'' @ [LF])
      = [(ustr ''r/'', 0), (ustr ''b'', 4)]"
    by (simp add: parse_markdown_def markdown_entry_def char_defs text_defs)
  moreover have "build_tree [(ustr ''r/'', 0), (ustr ''b'', 4)]
      = Some (Node (ustr ''r/'') True [Node (ustr ''b'') False [] 4] 0)"
    by (simp add: build_tree_def build_store_def new_node_def add_child_def char_defs text_defs
        tree_of.simps)
  moreover have "generate_tree_text (Some (Node (ustr ''r/'') True [Node (ustr ''b'') False [] 4] 0))
       default_indent default_branch default_last_branch
     = [ELL, DASH, DASH, SP] @ ustr ''r/'' @ [LF]
       @ [SP, SP, SP, SP] @ [ELL, DASH, DASH, SP] @ [LF]"
    by (simp add: generate_tree_text_def generate_tree_text_recursive_Node default_indent_def
        default_branch_def default_last_branch_def ustr_def char_defs)
  ultimately show ?thesis
    by (simp only: simp_thms)
qed

subsection \<open>The outline renderer\<close>

lemma generate_markdown_recursive_lines:
  "generate_markdown_recursive t lvl =
     (if lvl = - 1 then [] else outline_line (name t) lvl)
     @ concat (map (\<lambda>n. if level n = - 1 then [] else outline_line (name n) (level n))
         (descendants t))"
proof (induction t arbitrary: lvl)
  case (Node nm d cs lv)
  have "concat (map (\<lambda>child. generate_markdown_recursive child (level child)) cs)
      = concat (map (\<lambda>n. if level n = - 1 then [] else outline_line (name n) (level n))
          (concat (map (\<lambda>c. c # descendants c) cs)))"
    using Node.IH by (induction cs) simp_all
  then show ?case
    by (simp add: outline_line_def)
qed

text \<open>
  Claim C7. For a tree whose stored depths are not negative, as the depths of records are,
  the outline is one line per node in pre-order: the root's line at depth 0, whatever depth
  the root stores, and for every other node the indentation unit repeated as many times as
  the node's own stored depth says, followed by the node's name.
\<close>

theorem generate_markdown_lines:
  assumes "\<forall>n \<in> set (descendants t). 0 \<le> level n"
  shows "generate_markdown (Some t) =
     outline_line (name t) 0
     @ concat (map (\<lambda>n. outline_line (name n) (level n)) (descendants t))"
proof -
  have "concat (map (\<lambda>n. if level n = - 1 then [] else outline_line (name n) (level n))
          (descendants t))
      = concat (map (\<lambda>n. outline_line (name n) (level n)) (descendants t))"
    by (rule arg_cong [where f = concat], rule map_cong) (use assms in auto)
  then show ?thesis
    by (simp add: generate_markdown_def generate_markdown_recursive_lines)
qed

theorem generate_markdown_lines_witness:
  "generate_markdown (Some (Node (ustr ''r/'') True
       [Node (ustr ''a/'') True [Node (ustr ''b'') False [] 2] 1,
        Node (ustr ''c'') False [] 1] 7))
   = ustr ''r/'' @ [LF] @ ustr ''    a/'' @ [LF] @ ustr ''        b'' @ [LF]
     @ ustr ''    c'' @ [LF]"
proof -
  let ?t = "Node (ustr ''r/'') True
       [Node (ustr ''a/'') True [Node (ustr ''b'') False [] 2] 1,
        Node (ustr ''c'') False [] 1] 7"
  have h: "\<forall>n \<in> set (descendants ?t). 0 \<le> level n"
    by simp
  have "generate_markdown (Some ?t) =
     outline_line (name ?t) 0
     @ concat (map (\<lambda>n. outline_line (name n) (level n)) (descendants ?t))"
    by (rule generate_markdown_lines [OF h])
  also have "\<dots> = ustr ''r/'' @ [LF] @ ustr ''    a/'' @ [LF] @ ustr ''        b'' @ [LF]
     @ ustr ''    c'' @ [LF]"
    by (simp add: outline_line_def char_defs ustr_def numeral_eq_Suc)
  finally show ?thesis .
qed

subsection \<open>The nodes that the builder creates\<close>

lemma map_update_field:
  assumes "f y = f (xs ! i)"
  shows "map f (xs[i := y]) = map f xs"
proof (cases "i < length xs")
  case True
  then show ?thesis
    using assms by (simp add: map_update list_update_same_conv)
next
  case False
  then show ?thesis by (simp add: list_update_beyond)
qed

lemma build_step_length:
  "length (fst (build_step (st, stack) e)) = Suc (length st)"
  by (cases e) (simp add: Let_def split: list.split)

lemma build_step_names:
  "map o_name (fst (build_step (st, stack) (nm, lvl))) = map o_name st @ [nm]"
  by (simp add: Let_def map_update_field add_child_def new_node_def split: list.split)

lemma build_step_levels:
  "map o_level (fst (build_step (st, stack) (nm, lvl))) = map o_level st @ [lvl]"
  by (simp add: Let_def map_update_field add_child_def new_node_def split: list.split)

lemma build_step_is_dirs:
  "map o_is_dir (fst (build_step (st, stack) (nm, lvl))) = map o_is_dir st @ [endswith nm [SLASH]]"
  by (simp add: Let_def map_update_field add_child_def new_node_def split: list.split)

lemma foldl_build_names:
  "map o_name (fst (foldl build_step s es)) = map o_name (fst s) @ map fst es"
proof (induction es arbitrary: s)
  case Nil
  show ?case by simp
next
  case (Cons e es)
  obtain st stack where s: "s = (st, stack)" by (cases s)
  obtain nm lvl where e: "e = (nm, lvl)" by (cases e)
  show ?case
    using Cons.IH [of "build_step s e"] by (simp add: s e build_step_names del: build_step.simps)
qed

lemma foldl_build_levels:
  "map o_level (fst (foldl build_step s es)) = map o_level (fst s) @ map snd es"
proof (induction es arbitrary: s)
  case Nil
  show ?case by simp
next
  case (Cons e es)
  obtain st stack where s: "s = (st, stack)" by (cases s)
  obtain nm lvl where e: "e = (nm, lvl)" by (cases e)
  show ?case
    using Cons.IH [of "build_step s e"] by (simp add: s e build_step_levels del: build_step.simps)
qed

lemma foldl_build_is_dirs:
  "map o_is_dir (fst (foldl build_step s es))
     = map o_is_dir (fst s) @ map (\<lambda>e. endswith (fst e) [SLASH]) es"
proof (induction es arbitrary: s)
  case Nil
  show ?case by simp
next
  case (Cons e es)
  obtain st stack where s: "s = (st, stack)" by (cases s)
  obtain nm lvl where e: "e = (nm, lvl)" by (cases e)
  show ?case
    using Cons.IH [of "build_step s e"] by (simp add: s e build_step_is_dirs del: build_step.simps)
qed

lemma build_store_names:
  "map_option (map o_name) (build_store es) = (if es = [] then None else Some (map fst es))"
  by (cases es) (auto simp: build_store_def foldl_build_names new_node_def)

lemma build_store_levels:
  "map_option (map o_level) (build_store es) = (if es = [] then None else Some (map snd es))"
  by (cases es) (auto simp: build_store_def foldl_build_levels new_node_def)

lemma build_store_is_dirs:
  "map_option (map o_is_dir) (build_store es) =
     (if es = [] then None else Some (True # map (\<lambda>e. endswith (fst e) [SLASH]) (tl es)))"
  by (cases es) (auto simp: build_store_def foldl_build_is_dirs new_node_def)

lemma directory_label:
  "generate_tree_text_recursive i b l (Node nm True [] lv) p True
     = p @ l @ (if endswith nm [SLASH] then nm else butlast nm @ [SLASH]) @ [LF]"
  by (simp add: generate_tree_text_recursive_Node butlast_slash)

text \<open>
  Claim C4, as the code has it. The builder stores every record's name as it is, a
  trailing \<open>/\<close> included: the names of the nodes, in the order of their creation, are the
  names of the records. It is the diagram renderer that leaves out the last character of
  the stored name and writes \<open>/\<close> after a directory's, so that a directory whose stored
  name ends in \<open>/\<close> is written with exactly its stored name.
\<close>

theorem build_tree_keeps_names:
  "map_option (map o_name) (build_store es) = (if es = [] then None else Some (map fst es))
   \<and> generate_tree_text_recursive i b l (Node nm True [] lv) p True
       = p @ l @ (if endswith nm [SLASH] then nm else butlast nm @ [SLASH]) @ [LF]"
  by (intro conjI build_store_names directory_label)

text \<open>
  The claim as the specification states it fails: the node built for the record \<open>a/\<close>
  has the name \<open>a/\<close>.
\<close>

theorem build_tree_name_not_stripped:
  "build_tree [(ustr ''r/'', 0), (ustr ''a/'', 1)]
     = Some (Node (ustr ''r/'') True [Node (ustr ''a/'') True [] 1] 0)
   \<and> endswith (name (Node (ustr ''a/'') True [] 1)) [SLASH]"
  by (simp add: build_tree_def build_store_def new_node_def add_child_def char_defs text_defs
        tree_of.simps)

subsection \<open>Files and children\<close>

lemma build_step_files_inv:
  assumes inv: "files_inv (st, stack)"
    and ok: "o_is_dir (st ! hd stack) \<or> l \<le> o_level (st ! hd stack)"
  shows "files_inv (build_step (st, stack) (nm, l))"
    and "hd (snd (build_step (st, stack) (nm, l))) = length st"
    and "o_is_dir (fst (build_step (st, stack) (nm, l)) ! length st) = endswith nm [SLASH]"
    and "o_level (fst (build_step (st, stack) (nm, l)) ! length st) = l"
proof -
  define st1 where "st1 = st @ [new_node nm (endswith nm [SLASH]) l]"
  define stack1 where "stack1 = dropWhile (\<lambda>a. l \<le> o_level (st1 ! a)) stack"
  define st2 where "st2 = (if stack1 = [] then st1
      else st1[hd stack1 := add_child (st1 ! hd stack1) (length st)])"
  have step: "build_step (st, stack) (nm, l) = (st2, length st # stack1)"
    unfolding build_step_dropWhile st2_def stack1_def st1_def Let_def ..
  from inv have ne: "stack \<noteq> []" and bound: "\<forall>a \<in> set stack. a < length st"
    and below: "\<forall>a \<in> set (tl stack). o_is_dir (st ! a)"
    and files: "\<forall>a < length st. o_is_dir (st ! a) \<or> o_children (st ! a) = []"
    by (simp_all add: files_inv_def)
  obtain tp rest where stack: "stack = tp # rest"
    using ne by (cases stack) auto
  have st1_old: "st1 ! a = st ! a" if "a < length st" for a
    using that by (simp add: st1_def nth_append)
  have sub: "set stack1 \<subseteq> set stack"
    unfolding stack1_def by (auto dest: set_dropWhileD)
  have dirs1: "o_is_dir (st ! a)" if "a \<in> set stack1" for a
  proof (cases "l \<le> o_level (st1 ! tp)")
    case True
    then have "stack1 = dropWhile (\<lambda>a. l \<le> o_level (st1 ! a)) rest"
      by (simp add: stack1_def stack)
    then have "a \<in> set rest"
      using that by (auto dest: set_dropWhileD)
    then show ?thesis using below by (simp add: stack)
  next
    case False
    then have "stack1 = stack"
      by (simp add: stack1_def stack)
    moreover have "o_is_dir (st ! tp)"
      using False ok bound by (simp add: stack st1_old)
    ultimately show ?thesis
      using that below by (auto simp: stack)
  qed
  have bound1: "a < length st" if "a \<in> set stack1" for a
    using that sub bound by auto
  have len2: "length st2 = Suc (length st)"
    by (simp add: st2_def st1_def)
  have new2: "st2 ! length st = new_node nm (endswith nm [SLASH]) l"
  proof (cases "stack1 = []")
    case True
    then show ?thesis by (simp add: st2_def st1_def)
  next
    case False
    then have "hd stack1 < length st" using bound1 by simp
    then show ?thesis using False by (simp add: st2_def st1_def)
  qed
  have old2: "o_is_dir (st2 ! a) = o_is_dir (st ! a)
      \<and> (o_is_dir (st ! a) \<or> o_children (st2 ! a) = o_children (st ! a))"
    if "a < length st" for a
  proof (cases "stack1 \<noteq> [] \<and> a = hd stack1")
    case True
    then have "o_is_dir (st ! a)" using dirs1 by simp
    moreover have "st2 ! a = add_child (st1 ! a) (length st)"
      using True that by (simp add: st2_def st1_def)
    ultimately show ?thesis
      using that by (simp add: add_child_def st1_old)
  next
    case False
    then have "st2 ! a = st1 ! a"
      by (auto simp: st2_def)
    then show ?thesis using that by (simp add: st1_old)
  qed
  have "files_inv (st2, length st # stack1)"
    unfolding files_inv_def
  proof (simp only: prod.case, intro conjI)
    show "length st # stack1 \<noteq> []" by simp
    show "\<forall>a \<in> set (length st # stack1). a < length st2"
      using bound1 by (auto simp: len2 less_Suc_eq)
    show "\<forall>a \<in> set (tl (length st # stack1)). o_is_dir (st2 ! a)"
      using dirs1 bound1 old2 by simp
    show "\<forall>a < length st2. o_is_dir (st2 ! a) \<or> o_children (st2 ! a) = []"
    proof (intro allI impI)
      fix a assume "a < length st2"
      then consider "a = length st" | "a < length st"
        by (auto simp: len2 less_Suc_eq)
      then show "o_is_dir (st2 ! a) \<or> o_children (st2 ! a) = []"
      proof cases
        case 1
        then show ?thesis by (simp add: new2 new_node_def)
      next
        case 2
        then show ?thesis using old2 [OF 2] files by auto
      qed
    qed
  qed
  then show "files_inv (build_step (st, stack) (nm, l))"
    by (simp only: step)
  show "hd (snd (build_step (st, stack) (nm, l))) = length st"
    by (simp only: step snd_conv list.sel)
  show "o_is_dir (fst (build_step (st, stack) (nm, l)) ! length st) = endswith nm [SLASH]"
    by (simp only: step fst_conv new2) (simp add: new_node_def)
  show "o_level (fst (build_step (st, stack) (nm, l)) ! length st) = l"
    by (simp only: step fst_conv new2) (simp add: new_node_def)
qed


lemma foldl_build_files_inv:
  assumes "files_inv s"
    and "closed_after (o_is_dir (fst s ! hd (snd s))) (o_level (fst s ! hd (snd s))) es"
  shows "files_inv (foldl build_step s es)"
  using assms
proof (induction es arbitrary: s)
  case Nil
  then show ?case by simp
next
  case (Cons e es)
  obtain st stack where s: "s = (st, stack)" by (cases s)
  obtain nm l where e: "e = (nm, l)" by (cases e)
  from Cons.prems(2) have ok: "o_is_dir (st ! hd stack) \<or> l \<le> o_level (st ! hd stack)"
    and rest: "closed_after (endswith nm [SLASH]) l es"
    by (simp_all add: s e)
  note step = build_step_files_inv [OF Cons.prems(1) [unfolded s] ok, of nm]
  have "files_inv (foldl build_step (build_step (st, stack) (nm, l)) es)"
  proof (rule Cons.IH)
    show "files_inv (build_step (st, stack) (nm, l))" by (rule step(1))
    show "closed_after
        (o_is_dir (fst (build_step (st, stack) (nm, l)) ! hd (snd (build_step (st, stack) (nm, l)))))
        (o_level (fst (build_step (st, stack) (nm, l)) ! hd (snd (build_step (st, stack) (nm, l)))))
        es"
      using rest by (simp only: step(2) step(3) step(4))
  qed
  then show ?case
    by (simp only: foldl_Cons s e)
qed

lemma build_store_files_childless:
  assumes "files_closed es" and "build_store es = Some st"
  shows "\<forall>a < length st. o_is_dir (st ! a) \<or> o_children (st ! a) = []"
proof -
  from assms(2) obtain nm lvl rest where es: "es = (nm, lvl) # rest"
    and st: "st = fst (foldl build_step ([new_node nm True lvl], [0]) rest)"
    by (auto simp: build_store_def split: list.splits)
  have "files_inv (foldl build_step ([new_node nm True lvl], [0]) rest)"
  proof (rule foldl_build_files_inv)
    show "files_inv ([new_node nm True lvl], [0])"
      by (simp add: files_inv_def new_node_def)
    show "closed_after (o_is_dir (fst ([new_node nm True lvl], [0]) ! hd (snd ([new_node nm True lvl], [0::nat]))))
        (o_level (fst ([new_node nm True lvl], [0]) ! hd (snd ([new_node nm True lvl], [0::nat])))) rest"
      using assms(1) by (simp add: files_closed_def es new_node_def)
  qed
  then show ?thesis
    by (cases "foldl build_step ([new_node nm True lvl], [0]) rest") (simp add: files_inv_def st)
qed

lemma descendants_tree_of:
  "n \<in> set (descendants (tree_of st a)) \<Longrightarrow> \<exists>b < length st. n = tree_of st b"
proof (induction st a rule: tree_of.induct)
  case (1 st a)
  define cs where "cs = filter (\<lambda>c. a < c \<and> c < length st) (o_children (st ! a))"
  have "descendants (tree_of st a) = concat (map (\<lambda>c. c # descendants c) (map (tree_of st) cs))"
    by (subst tree_of.simps) (simp add: cs_def)
  with "1.prems" obtain c where c: "c \<in> set cs"
    and n: "n = tree_of st c \<or> n \<in> set (descendants (tree_of st c))"
    by auto
  from c have "c < length st" by (simp add: cs_def)
  with n "1.IH" [of c] c show ?case
    by (auto simp: cs_def)
qed

lemma tree_of_is_dir: "is_dir (tree_of st a) = o_is_dir (st ! a)"
  by (subst tree_of.simps) simp

lemma tree_of_childless: "o_children (st ! a) = [] \<Longrightarrow> children (tree_of st a) = []"
  by (subst tree_of.simps) simp

text \<open>
  Claim C8, as the code has it. The builder attaches a record to whatever node is on top
  of the stack after the popping, file or directory, so a file followed by a deeper record
  becomes a parent. When no record that follows a file is deeper than the file, every node
  of the built tree other than the root that is a file has no children.
\<close>

theorem file_nodes_childless:
  assumes "files_closed es" and "build_tree es = Some t"
  shows "\<forall>n \<in> set (descendants t). \<not> is_dir n \<longrightarrow> children n = []"
proof (intro ballI impI)
  fix n assume n: "n \<in> set (descendants t)" and nd: "\<not> is_dir n"
  from assms(2) obtain st where st: "build_store es = Some st" and t: "t = tree_of st 0"
    by (auto simp: build_tree_def)
  from n obtain b where b: "b < length st" and nb: "n = tree_of st b"
    unfolding t by (auto dest: descendants_tree_of)
  from nd have "\<not> o_is_dir (st ! b)"
    by (simp add: nb tree_of_is_dir)
  with build_store_files_childless [OF assms(1) st] b have "o_children (st ! b) = []"
    by auto
  then show "children n = []"
    unfolding nb by (rule tree_of_childless)
qed

theorem file_nodes_childless_witness:
  "list_all (\<lambda>n. is_dir n \<or> children n = [])
     (descendants (Node (ustr ''root/'') True
              [Node (ustr ''a/'') True [Node (ustr ''b'') False [] 8] 4,
               Node (ustr ''c'') False [] 4] 0))"
proof -
  let ?es = "[(ustr ''root/'', 0), (ustr ''a/'', 4), (ustr ''b'', 8), (ustr ''c'', 4)]"
  let ?t = "Node (ustr ''root/'') True
              [Node (ustr ''a/'') True [Node (ustr ''b'') False [] 8] 4,
               Node (ustr ''c'') False [] 4] 0"
  have h1: "files_closed ?es"
    by (simp add: files_closed_def char_defs text_defs)
  have h2: "build_tree ?es = Some ?t"
    unfolding build_tree_def outline_example_store by (simp add: tree_of.simps)
  have "\<forall>n \<in> set (descendants ?t). \<not> is_dir n \<longrightarrow> children n = []"
    by (rule file_nodes_childless [OF h1 h2])
  then show ?thesis
    unfolding list_all_iff by blast
qed

text \<open>
  The claim as the specification states it fails: in the tree of the records \<open>r/\<close>
  (depth 0), \<open>b\<close> (depth 1), \<open>c\<close> (depth 2) the file \<open>b\<close> has the child \<open>c\<close>.
\<close>

theorem file_with_child:
  "build_tree [(ustr ''r/'', 0), (ustr ''b'', 1), (ustr ''c'', 2)]
     = Some (Node (ustr ''r/'') True [Node (ustr ''b'') False [Node (ustr ''c'') False [] 2] 1] 0)"
  by (simp add: build_tree_def build_store_def new_node_def add_child_def char_defs text_defs
        tree_of.simps)

subsection \<open>The filesystem materializer\<close>

lemma lookup_None: "lookup fs k = None \<Longrightarrow> fs k = None"
  by (simp add: lookup_def split: if_splits)

lemma lookup_mono: "fs \<subseteq>\<^sub>m g \<Longrightarrow> lookup fs k = Some e \<Longrightarrow> lookup g k = Some e"
  by (auto simp: lookup_def map_le_def dom_def split: if_splits)

lemma map_le_fresh: "fs k = None \<Longrightarrow> fs \<subseteq>\<^sub>m fs(k \<mapsto> e)"
  by (auto simp: map_le_def)

lemma mkdirs_le: "fs \<subseteq>\<^sub>m snd (mkdirs ks fs)"
proof (induction ks arbitrary: fs)
  case Nil
  show ?case by simp
next
  case (Cons k ks)
  show ?case
  proof (cases "lookup fs k")
    case None
    then have "fs k = None"
      by (rule lookup_None)
    then have "fs \<subseteq>\<^sub>m fs(k \<mapsto> Dir)"
      by (rule map_le_fresh)
    also have "fs(k \<mapsto> Dir) \<subseteq>\<^sub>m snd (mkdirs ks (fs(k \<mapsto> Dir)))"
      by (rule Cons.IH)
    finally show ?thesis
      using None by simp
  next
    case (Some e)
    then show ?thesis
      using Cons.IH [of fs] by (cases e) simp_all
  qed
qed

lemma os_makedirs_le: "fs \<subseteq>\<^sub>m snd (os_makedirs path fs)"
  by (simp add: os_makedirs_def mkdirs_le)

lemma open_w_close_le:
  assumes "\<not> os_path_exists fs path"
  shows "fs \<subseteq>\<^sub>m snd (open_w_close path fs)"
proof (cases "lookup fs (resolve path)")
  case None
  then have "fs (resolve path) = None"
    by (rule lookup_None)
  then have "fs \<subseteq>\<^sub>m fs(resolve path \<mapsto> File [])"
    by (rule map_le_fresh)
  then show ?thesis
    by (simp add: open_w_close_def Let_def split: option.split entry.split)
next
  case (Some e)
  with assms have "endswith path [SLASH]"
    by (cases e) (simp_all add: os_path_exists_def)
  then show ?thesis
    by (simp add: open_w_close_def Let_def)
qed

lemma create_le:
  "fs \<subseteq>\<^sub>m snd (create_files_and_dirs nd current_path fs)"
  "fs \<subseteq>\<^sub>m snd (create_children cs path fs)"
proof (induction nd current_path fs and cs path fs
    rule: create_files_and_dirs_create_children.induct)
  case (1 nm d cs lv current_path fs)
  define p where "p = os_path_join current_path nm"
  show ?case
  proof (cases d)
    case True
    obtain r fs1 where mk: "os_makedirs p fs = (r, fs1)"
      by (cases "os_makedirs p fs")
    have le1: "fs \<subseteq>\<^sub>m fs1"
      using os_makedirs_le [of fs p] by (simp add: mk)
    show ?thesis
    proof (cases r)
      case None
      have "fs1 \<subseteq>\<^sub>m snd (create_children cs p fs1)"
        using "1.IH" [OF p_def True mk [symmetric] None] .
      with le1 have "fs \<subseteq>\<^sub>m snd (create_children cs p fs1)"
        by (rule map_le_trans)
      then show ?thesis
        using True None by (simp add: p_def [symmetric] mk)
    next
      case (Some e)
      then show ?thesis
        using True le1 by (simp add: p_def [symmetric] mk)
    qed
  next
    case False
    then show ?thesis
      using open_w_close_le [of fs p] by (simp add: p_def [symmetric])
  qed
next
  case (2 path fs)
  show ?case by simp
next
  case (3 child cs path fs)
  obtain r fs1 where c: "create_files_and_dirs child path fs = (r, fs1)"
    by (cases "create_files_and_dirs child path fs")
  have le1: "fs \<subseteq>\<^sub>m fs1"
    using "3.IH"(1) by (simp add: c)
  show ?case
  proof (cases r)
    case None
    have "fs1 \<subseteq>\<^sub>m snd (create_children cs path fs1)"
      using "3.IH"(2) [OF c [symmetric] None] .
    with le1 have "fs \<subseteq>\<^sub>m snd (create_children cs path fs1)"
      by (rule map_le_trans)
    then show ?thesis
      using None by (simp add: c)
  next
    case (Some e)
    then show ?thesis
      using le1 by (simp add: c)
  qed
qed
lemma lookup_upd_Dir: "lookup (fs(k \<mapsto> Dir)) k = Some Dir"
  by (simp add: lookup_def)

lemma mkdirs_dirs:
  "mkdirs ks fs = (None, fs1) \<Longrightarrow> k \<in> set ks \<Longrightarrow> lookup fs1 k = Some Dir"
proof (induction ks arbitrary: fs)
  case Nil
  then show ?case by simp
next
  case (Cons k' ks)
  show ?case
  proof (cases "lookup fs k'")
    case None
    with Cons.prems(1) have run: "mkdirs ks (fs(k' \<mapsto> Dir)) = (None, fs1)"
      by simp
    show ?thesis
    proof (cases "k = k'")
      case True
      have "fs(k' \<mapsto> Dir) \<subseteq>\<^sub>m fs1"
        using mkdirs_le [of "fs(k' \<mapsto> Dir)" ks] by (simp add: run)
      then show ?thesis
        unfolding True by (rule lookup_mono) (rule lookup_upd_Dir)
    next
      case False
      with Cons.prems(2) have "k \<in> set ks" by simp
      with run show ?thesis by (rule Cons.IH)
    qed
  next
    case (Some e)
    show ?thesis
    proof (cases e)
      case Dir
      with Some Cons.prems(1) have run: "mkdirs ks fs = (None, fs1)"
        by simp
      show ?thesis
      proof (cases "k = k'")
        case True
        have "fs \<subseteq>\<^sub>m fs1"
          using mkdirs_le [of fs ks] by (simp add: run)
        then show ?thesis
          using Some Dir unfolding True by (auto intro: lookup_mono)
      next
        case False
        with Cons.prems(2) have "k \<in> set ks" by simp
        with run show ?thesis by (rule Cons.IH)
      qed
    next
      case (File c)
      with Some Cons.prems(1) show ?thesis by simp
    qed
  qed
qed

lemma mkdirs_noop:
  "(\<And>k. k \<in> set ks \<Longrightarrow> lookup g k = Some Dir) \<Longrightarrow> mkdirs ks g = (None, g)"
  by (induction ks) simp_all

lemma os_makedirs_again:
  assumes "os_makedirs p fs = (None, fs1)" and "fs1 \<subseteq>\<^sub>m g"
  shows "os_makedirs p g = (None, g)"
proof -
  define ks where "ks = map (\<lambda>n. take n (resolve p)) [1 ..< Suc (length (resolve p))]"
  from assms(1) have p: "p \<noteq> []" and run: "mkdirs ks fs = (None, fs1)"
    by (auto simp: os_makedirs_def ks_def split: if_splits)
  have "mkdirs ks g = (None, g)"
  proof (rule mkdirs_noop)
    fix k assume "k \<in> set ks"
    with run have "lookup fs1 k = Some Dir" by (rule mkdirs_dirs)
    with assms(2) show "lookup g k = Some Dir" by (rule lookup_mono)
  qed
  with p show ?thesis
    by (simp add: os_makedirs_def ks_def)
qed

lemma os_path_exists_mono:
  assumes "os_path_exists fs p" and "fs \<subseteq>\<^sub>m g"
  shows "os_path_exists g p"
proof -
  from assms(1) obtain e where e: "lookup fs (resolve p) = Some e"
    by (auto simp: os_path_exists_def split: option.splits)
  with assms(2) have "lookup g (resolve p) = Some e" by (rule lookup_mono)
  with assms(1) e show ?thesis
    by (simp add: os_path_exists_def)
qed

lemma open_w_close_exists:
  assumes "open_w_close p fs = (None, fs1)"
  shows "os_path_exists fs1 p"
proof -
  from assms have slash: "\<not> endswith p [SLASH]" and nodir: "lookup fs (resolve p) \<noteq> Some Dir"
    and fs1: "fs1 = fs(resolve p \<mapsto> File [])"
    by (auto simp: open_w_close_def Let_def split: if_splits option.splits entry.splits)
  from nodir have "lookup fs1 (resolve p) = Some (File [])"
    by (auto simp: lookup_def fs1)
  with slash show ?thesis
    by (simp add: os_path_exists_def)
qed

lemma create_again:
  "create_files_and_dirs nd current_path fs = (None, fs1) \<Longrightarrow> fs1 \<subseteq>\<^sub>m g
     \<Longrightarrow> create_files_and_dirs nd current_path g = (None, g)"
  "create_children cs path fs = (None, fs1) \<Longrightarrow> fs1 \<subseteq>\<^sub>m g
     \<Longrightarrow> create_children cs path g = (None, g)"
proof (induction nd current_path fs and cs path fs arbitrary: fs1 g and fs1 g
    rule: create_files_and_dirs_create_children.induct)
  case (1 nm d cs lv current_path fs)
  define p where "p = os_path_join current_path nm"
  show ?case
  proof (cases d)
    case True
    obtain r fsa where mk: "os_makedirs p fs = (r, fsa)"
      by (cases "os_makedirs p fs")
    with "1.prems"(1) True have r: "r = None" and kids: "create_children cs p fsa = (None, fs1)"
      by (auto simp: p_def [symmetric] split: option.splits)
    have "fsa \<subseteq>\<^sub>m fs1"
      using create_le(2) [of fsa cs p] by (simp add: kids)
    then have "fsa \<subseteq>\<^sub>m g"
      using "1.prems"(2) by (rule map_le_trans)
    with mk have "os_makedirs p g = (None, g)"
      unfolding r by (rule os_makedirs_again)
    moreover have "create_children cs p g = (None, g)"
      using "1.IH" [OF p_def True mk [symmetric] r kids "1.prems"(2)] .
    ultimately show ?thesis
      using True by (simp add: p_def [symmetric])
  next
    case False
    have "os_path_exists g p"
    proof (cases "os_path_exists fs p")
      case True
      with "1.prems"(1) False have "fs1 = fs"
        by (simp add: p_def [symmetric])
      with True "1.prems"(2) show ?thesis
        by (auto intro: os_path_exists_mono)
    next
      case no: False
      with "1.prems"(1) False have "open_w_close p fs = (None, fs1)"
        by (simp add: p_def [symmetric])
      then have "os_path_exists fs1 p" by (rule open_w_close_exists)
      then show ?thesis using "1.prems"(2) by (rule os_path_exists_mono)
    qed
    with False show ?thesis
      by (simp add: p_def [symmetric])
  qed
next
  case (2 path fs)
  show ?case by simp
next
  case (3 child cs path fs)
  obtain r fsa where c: "create_files_and_dirs child path fs = (r, fsa)"
    by (cases "create_files_and_dirs child path fs")
  with "3.prems"(1) have r: "r = None" and kids: "create_children cs path fsa = (None, fs1)"
    by (auto split: option.splits)
  have "fsa \<subseteq>\<^sub>m fs1"
    using create_le(2) [of fsa cs path] by (simp add: kids)
  then have "fsa \<subseteq>\<^sub>m g"
    using "3.prems"(2) by (rule map_le_trans)
  with c have "create_files_and_dirs child path g = (None, g)"
    unfolding r by (rule "3.IH"(1))
  moreover have "create_children cs path g = (None, g)"
    using "3.IH"(2) [OF c [symmetric] r kids "3.prems"(2)] .
  ultimately show ?case by simp
qed

text \<open>
  Claim C9. Whatever the tree, the destination and the file system, a run of the
  materializer leaves every entry that was there as it was: no file is deleted or loses
  its content, in the first run or in a second one, also when a run ends with an error.
  A directory that exists is not an error: creating the directories of a path again is
  a step that changes nothing, and so is a whole second run after a first one that
  succeeded. For a file node an empty file is written only if nothing exists at its path.
\<close>

theorem materialize_keeps_files:
  "(fs k = Some e \<longrightarrow>
      snd (create_files_and_dirs nd dest fs) k = Some e
      \<and> snd (create_files_and_dirs nd dest (snd (create_files_and_dirs nd dest fs))) k = Some e)
   \<and> (fst (os_makedirs p fs) = None \<longrightarrow>
        os_makedirs p (snd (os_makedirs p fs)) = (None, snd (os_makedirs p fs)))
   \<and> (fst (create_files_and_dirs nd dest fs) = None \<longrightarrow>
        create_files_and_dirs nd dest (snd (create_files_and_dirs nd dest fs))
          = (None, snd (create_files_and_dirs nd dest fs)))
   \<and> create_files_and_dirs (Node nm False cs lv) dest fs =
        (if os_path_exists fs (os_path_join dest nm) then (None, fs)
         else open_w_close (os_path_join dest nm) fs)"
proof (intro conjI impI)
  assume k: "fs k = Some e"
  have le1: "fs \<subseteq>\<^sub>m snd (create_files_and_dirs nd dest fs)"
    by (rule create_le)
  also have "snd (create_files_and_dirs nd dest fs)
      \<subseteq>\<^sub>m snd (create_files_and_dirs nd dest (snd (create_files_and_dirs nd dest fs)))"
    by (rule create_le)
  finally have le2:
    "fs \<subseteq>\<^sub>m snd (create_files_and_dirs nd dest (snd (create_files_and_dirs nd dest fs)))" .
  from k have dom: "k \<in> dom fs" by auto
  show "snd (create_files_and_dirs nd dest fs) k = Some e"
    using le1 dom k by (auto simp: map_le_def)
  show "snd (create_files_and_dirs nd dest (snd (create_files_and_dirs nd dest fs))) k = Some e"
    using le2 dom k by (auto simp: map_le_def)
next
  assume "fst (os_makedirs p fs) = None"
  then have "os_makedirs p fs = (None, snd (os_makedirs p fs))"
    by (simp add: prod_eq_iff)
  then show "os_makedirs p (snd (os_makedirs p fs)) = (None, snd (os_makedirs p fs))"
    by (rule os_makedirs_again) simp
next
  assume "fst (create_files_and_dirs nd dest fs) = None"
  then have "create_files_and_dirs nd dest fs = (None, snd (create_files_and_dirs nd dest fs))"
    by (simp add: prod_eq_iff)
  then show "create_files_and_dirs nd dest (snd (create_files_and_dirs nd dest fs))
      = (None, snd (create_files_and_dirs nd dest fs))"
    by (rule create_again) simp
next
  show "create_files_and_dirs (Node nm False cs lv) dest fs =
        (if os_path_exists fs (os_path_join dest nm) then (None, fs)
         else open_w_close (os_path_join dest nm) fs)"
    by simp
qed

lemmas fs_defs = os_path_join_def os_makedirs_def os_path_exists_def open_w_close_def
  resolve_def lookup_def

theorem materialize_keeps_files_witness:
  "snd (create_files_and_dirs (Node (ustr ''r/'') True [Node (ustr ''b'') False [] 4] 0)
       (ustr ''out'')
       [[ustr ''out''] \<mapsto> Dir, [ustr ''out'', ustr ''r''] \<mapsto> Dir,
        [ustr ''out'', ustr ''r'', ustr ''b''] \<mapsto> File (ustr ''x'')])
     [ustr ''out'', ustr ''r'', ustr ''b''] = Some (File (ustr ''x''))
   \<and> os_makedirs (ustr ''out/r/'')
       (snd (os_makedirs (ustr ''out/r/'') [[ustr ''out''] \<mapsto> Dir]))
     = (None, snd (os_makedirs (ustr ''out/r/'') [[ustr ''out''] \<mapsto> Dir]))
   \<and> create_files_and_dirs (Node (ustr ''r/'') True [Node (ustr ''b'') False [] 4] 0)
       (ustr ''out'')
       (snd (create_files_and_dirs (Node (ustr ''r/'') True [Node (ustr ''b'') False [] 4] 0)
          (ustr ''out'') [[ustr ''out''] \<mapsto> Dir]))
     = (None, snd (create_files_and_dirs (Node (ustr ''r/'') True [Node (ustr ''b'') False [] 4] 0)
          (ustr ''out'') [[ustr ''out''] \<mapsto> Dir]))"
proof -
  let ?t = "Node (ustr ''r/'') True [Node (ustr ''b'') False [] 4] 0"
  let ?fs = "[[ustr ''out''] \<mapsto> Dir, [ustr ''out'', ustr ''r''] \<mapsto> Dir,
        [ustr ''out'', ustr ''r'', ustr ''b''] \<mapsto> File (ustr ''x'')]"
  let ?g = "[[ustr ''out''] \<mapsto> Dir]"
  have h1: "?fs [ustr ''out'', ustr ''r'', ustr ''b''] = Some (File (ustr ''x''))"
    by simp
  have h2: "fst (os_makedirs (ustr ''out/r/'') ?g) = None"
    by (simp add: fs_defs char_defs text_defs)
  have h3: "fst (create_files_and_dirs ?t (ustr ''out'') ?g) = None"
    by (simp add: fs_defs char_defs text_defs)
  note main = materialize_keeps_files
  show ?thesis
    using main [of ?fs _ _ ?t "ustr ''out''", THEN conjunct1, rule_format, OF h1, THEN conjunct1]
      main [of ?g _ _ _ _ "ustr ''out/r/''", THEN conjunct2, THEN conjunct1, rule_format, OF h2]
      main [of ?g _ _ ?t "ustr ''out''", THEN conjunct2, THEN conjunct2, THEN conjunct1,
        rule_format, OF h3]
    by (intro conjI)
qed

end
